theory Spec2Isabelle
  imports Main "HOL-Library.Word"
begin

section \<open>Data model of \<open>service/flow_helpers/account.go\<close>\<close>

text \<open>
  \<open>flow.Address\<close> is an array of 8 bytes, \<open>uint64\<close> is a 64-bit word whose \<open>++\<close> wraps.
  Go's \<open>int\<close> is modelled by \<open>int\<close>: key indexes are only stored, compared and used as
  positions, and the one sum on a cursor, \<open>nextKeyIndexIndex + 1\<close>, is computed after the
  bounds check of the slice access, so it is at most the length of a slice.
\<close>

type_synonym address = "64 word"
type_synonym uint64 = "64 word"

text \<open>A pointer to an \<open>Account\<close> is a position in the heap of allocated accounts.\<close>

type_synonym ptr = nat

record Account =
  Address :: address
  PrivateKeyInHex :: string
  KeyIndexes :: "int list"
  nextKeyIndexIndex :: int

text \<open>
  \<open>flow.AccountKey\<close> and \<open>flow.Account\<close> of the ledger client: the fields this package reads
  or writes (\<open>Index\<close>, \<open>SequenceNumber\<close>, \<open>Keys\<close>). \<open>Keys\<close> is a slice of pointers to keys; the
  client fills it with keys it has just decoded, so its entries are keys, never \<open>nil\<close>.
\<close>

record AccountKey =
  Index :: int
  SequenceNumber :: uint64

record FlowAccount =
  Keys :: "AccountKey list"

text \<open>Run-time panics of the Go code, and the error values it returns.\<close>

datatype panic = IndexOutOfRange | NilDereference | InvalidArgumentToIntn

datatype error = RemoteError string | Errorf string error

text \<open>
  The package's global variables, and the accounts allocated by \<open>GetAccount\<close>.
  A map that is still \<open>nil\<close> is \<open>None\<close>.
\<close>

record world =
  heap :: "Account list"
  accounts :: "(address \<rightharpoonup> ptr) option"
  seqNumMap :: "(address \<rightharpoonup> (int \<rightharpoonup> uint64)) option"

definition init_world :: world where
  "init_world = \<lparr>heap = [], accounts = None, seqNumMap = None\<rparr>"

section \<open>The sequence allocator\<close>

text \<open>
  \<open>getSeqNum\<close>: both maps are created when missing, the entry of \<open>(address, key.Index)\<close> is
  incremented when it exists and is at least \<open>key.SequenceNumber\<close> and set to
  \<open>key.SequenceNumber\<close> otherwise, and the entry is returned.
\<close>

definition getSeqNum :: "address \<Rightarrow> AccountKey \<Rightarrow> world \<Rightarrow> uint64 \<times> world" where
  "getSeqNum address key w =
     (let outer = (case seqNumMap w of None \<Rightarrow> Map.empty | Some m \<Rightarrow> m);
          inner = (case outer address of None \<Rightarrow> Map.empty | Some i \<Rightarrow> i);
          v = (case inner (Index key) of
                 Some prev \<Rightarrow> if prev \<ge> SequenceNumber key then prev + 1 else SequenceNumber key
               | None \<Rightarrow> SequenceNumber key)
      in (v, w\<lparr>seqNumMap := Some (outer(address \<mapsto> inner(Index key \<mapsto> v)))\<rparr>))"

text \<open>The cache entry of a pair, as the two-value read \<open>seqNumMap[address][index]\<close> gives it.\<close>

definition cached :: "world \<Rightarrow> address \<Rightarrow> int \<Rightarrow> uint64 option" where
  "cached w address i =
     (case seqNumMap w of None \<Rightarrow> None
      | Some m \<Rightarrow> (case m address of None \<Rightarrow> None | Some inner \<Rightarrow> inner i))"

text \<open>Successive calls for one pair, one call for each remote sequence number of the list.\<close>

fun getSeqNum_calls :: "address \<Rightarrow> int \<Rightarrow> uint64 list \<Rightarrow> world \<Rightarrow> uint64 list \<times> world" where
  "getSeqNum_calls address i [] w = ([], w)"
| "getSeqNum_calls address i (r # rs) w =
     (case getSeqNum address \<lparr>Index = i, SequenceNumber = r\<rparr> w of
        (v, w') \<Rightarrow> (case getSeqNum_calls address i rs w' of (vs, w'') \<Rightarrow> (v # vs, w'')))"

section \<open>The account registry and the key rotator\<close>

text \<open>
  \<open>rand.Intn n\<close> of the Go standard library panics when \<open>n \<le> 0\<close> and otherwise reduces a
  non-negative draw of the generator to a value below \<open>n\<close>. The draw is a parameter.
\<close>

definition Intn :: "nat \<Rightarrow> int \<Rightarrow> panic + int" where
  "Intn draw n = (if n \<le> 0 then Inl InvalidArgumentToIntn else Inr (int draw mod n))"

text \<open>
  \<open>GetAccount\<close> returns a pointer. The registry is created when it is still \<open>nil\<close>, also by
  a call that panics afterwards. A new account is allocated at the end of the heap.
  The slice \<open>keyIndexes\<close> is stored as the list of its elements.
\<close>

definition GetAccount ::
  "address \<Rightarrow> string \<Rightarrow> int list \<Rightarrow> nat \<Rightarrow> world \<Rightarrow> (panic + ptr) \<times> world" where
  "GetAccount address privateKeyInHex keyIndexes draw w =
     (let accs = (case accounts w of None \<Rightarrow> Map.empty | Some m \<Rightarrow> m);
          w1 = w\<lparr>accounts := Some accs\<rparr>
      in case accs address of
           Some existing \<Rightarrow> (Inr existing, w1)
         | None \<Rightarrow>
             (case Intn draw (int (length keyIndexes)) of
                Inl p \<Rightarrow> (Inl p, w1)
              | Inr randomIndex \<Rightarrow>
                  (let new = length (heap w1)
                   in (Inr new,
                       w1\<lparr>heap := heap w1 @
                              [\<lparr>Address = address, PrivateKeyInHex = privateKeyInHex,
                                KeyIndexes = keyIndexes, nextKeyIndexIndex = randomIndex\<rparr>],
                           accounts := Some (accs(address \<mapsto> new))\<rparr>))))"

text \<open>The account registered for an address, as the two-value read \<open>accounts[address]\<close> gives it.\<close>

definition registered :: "world \<Rightarrow> address \<Rightarrow> ptr option" where
  "registered w address = (case accounts w of None \<Rightarrow> None | Some m \<Rightarrow> m address)"

text \<open>Go's \<open>%\<close> on \<open>int\<close> truncates towards zero: the result has the sign of the dividend.\<close>

definition go_rem :: "int \<Rightarrow> int \<Rightarrow> int" where
  "go_rem a b = sgn a * (\<bar>a\<bar> mod \<bar>b\<bar>)"

text \<open>
  \<open>KeyIndex\<close> on the account its receiver points to: the slice access panics when the
  cursor is out of range, which is always so for an empty list, before the remainder is
  computed. The account is returned as the call leaves it.
\<close>

definition KeyIndex :: "Account \<Rightarrow> (panic + int) \<times> Account" where
  "KeyIndex a =
     (if nextKeyIndexIndex a < 0 \<or> int (length (KeyIndexes a)) \<le> nextKeyIndexIndex a
      then (Inl IndexOutOfRange, a)
      else (Inr (KeyIndexes a ! nat (nextKeyIndexIndex a)),
            a\<lparr>nextKeyIndexIndex :=
                 go_rem (nextKeyIndexIndex a + 1) (int (length (KeyIndexes a)))\<rparr>))"

text \<open>Successive calls of \<open>KeyIndex\<close> on one account, until the first panic.\<close>

fun KeyIndex_calls :: "nat \<Rightarrow> Account \<Rightarrow> (panic + int list) \<times> Account" where
  "KeyIndex_calls 0 a = (Inr [], a)"
| "KeyIndex_calls (Suc n) a =
     (case KeyIndex a of
        (Inl p, a') \<Rightarrow> (Inl p, a')
      | (Inr i, a') \<Rightarrow>
          (case KeyIndex_calls n a' of
             (Inl p, a'') \<Rightarrow> (Inl p, a'')
           | (Inr is, a'') \<Rightarrow> (Inr (i # is), a'')))"

text \<open>
  The call \<open>p.KeyIndex()\<close> through a pointer, which updates the account in the heap. A
  pointer to no allocated account stands for \<open>nil\<close>.
\<close>

definition KeyIndex_at :: "ptr \<Rightarrow> world \<Rightarrow> (panic + int) \<times> world" where
  "KeyIndex_at p w =
     (if p < length (heap w)
      then (case KeyIndex (heap w ! p) of (r, a') \<Rightarrow> (r, w\<lparr>heap := (heap w)[p := a']\<rparr>))
      else (Inl NilDereference, w))"

section \<open>Proposal-key assembly\<close>

text \<open>
  \<open>GetProposalKey\<close> has a value receiver: \<open>a\<close> is a copy of the account, and the cursor that
  \<open>a.KeyIndex()\<close> advances is the copy's. The result of the remote query
  \<open>flowClient.GetAccount\<close> is a parameter: the account pointer, \<open>None\<close> when it is \<open>nil\<close>, and
  the error, \<open>None\<close> when it is \<open>nil\<close>. The key is read from \<open>account.Keys\<close> before the error
  is looked at. Go leaves the order of the method call and the read of \<open>account.Keys\<close>
  open; here the call comes first, which shows only in the kind of the panic when both
  fail.
\<close>

definition GetProposalKey ::
  "Account \<Rightarrow> FlowAccount option \<times> error option \<Rightarrow> world \<Rightarrow>
     (panic + error + AccountKey) \<times> world" where
  "GetProposalKey a remote w =
     (case remote of (account, err) \<Rightarrow>
        (case KeyIndex a of
           (Inl p, a') \<Rightarrow> (Inl p, w)
         | (Inr i, a') \<Rightarrow>
             (case account of
                None \<Rightarrow> (Inl NilDereference, w)
              | Some acc \<Rightarrow>
                  if i < 0 \<or> int (length (Keys acc)) \<le> i then (Inl IndexOutOfRange, w)
                  else (let k = Keys acc ! nat i
                        in case err of
                             Some e \<Rightarrow>
                               (Inr (Inl (Errorf ''error in flow_helpers.Account.GetProposalKey: '' e)), w)
                           | None \<Rightarrow>
                               (case getSeqNum (Address a) k w of
                                  (n, w') \<Rightarrow> (Inr (Inr (k\<lparr>SequenceNumber := n\<rparr>)), w'))))))"

text \<open>The call \<open>p.GetProposalKey(ctx, flowClient)\<close> through a pointer copies the account.\<close>

definition GetProposalKey_at ::
  "ptr \<Rightarrow> FlowAccount option \<times> error option \<Rightarrow> world \<Rightarrow>
     (panic + error + AccountKey) \<times> world" where
  "GetProposalKey_at p remote w =
     (if p < length (heap w) then GetProposalKey (heap w ! p) remote w
      else (Inl NilDereference, w))"

section \<open>Sequences of operations\<close>

datatype op =
    OpGetAccount address string "int list" nat
  | OpKeyIndex ptr
  | OpGetProposalKey ptr "FlowAccount option \<times> error option"
  | OpGetSeqNum address AccountKey

text \<open>The world after one operation, and after a list of them (a recovered panic included).\<close>

fun step :: "op \<Rightarrow> world \<Rightarrow> world" where
  "step (OpGetAccount address pk keyIndexes draw) w = snd (GetAccount address pk keyIndexes draw w)"
| "step (OpKeyIndex p) w = snd (KeyIndex_at p w)"
| "step (OpGetProposalKey p remote) w = snd (GetProposalKey_at p remote w)"
| "step (OpGetSeqNum address key) w = snd (getSeqNum address key w)"

fun exec :: "op list \<Rightarrow> world \<Rightarrow> world" where
  "exec [] w = w"
| "exec (x # xs) w = exec xs (step x w)"

definition cursor_in_bounds :: "Account \<Rightarrow> bool" where
  "cursor_in_bounds a \<longleftrightarrow>
     0 \<le> nextKeyIndexIndex a \<and> nextKeyIndexIndex a < int (length (KeyIndexes a))"

section \<open>Properties of the sequence allocator\<close>

lemma getSeqNum_cached:
  "cached (snd (getSeqNum address key w)) address (Index key) = Some (fst (getSeqNum address key w))"
  by (simp add: getSeqNum_def cached_def Let_def)

lemma getSeqNum_frame:
  "(a, i) \<noteq> (address, Index key) \<Longrightarrow>
   cached (snd (getSeqNum address key w)) a i = cached w a i"
  by (auto simp: getSeqNum_def cached_def Let_def split: option.splits)

text \<open>
  C4. For a pair that already has a cache entry \<open>c\<close>: when \<open>c\<close> is at least the remote
  sequence number the entry is incremented by one and the new value is returned; otherwise
  the remote sequence number is stored and returned as it is.
\<close>

theorem getSeqNum_existing_entry:
  assumes "cached w address (Index key) = Some c"
  shows "fst (getSeqNum address key w) = (if c \<ge> SequenceNumber key then c + 1 else SequenceNumber key)
       \<and> cached (snd (getSeqNum address key w)) address (Index key)
           = Some (if c \<ge> SequenceNumber key then c + 1 else SequenceNumber key)"
  using assms
  by (auto simp: getSeqNum_def cached_def Let_def split: option.splits)

theorem getSeqNum_existing_entry_witness:
  "fst (getSeqNum 1 \<lparr>Index = 0, SequenceNumber = 3\<rparr>
          (snd (getSeqNum 1 \<lparr>Index = 0, SequenceNumber = 5\<rparr> init_world))) = 6
 \<and> fst (getSeqNum 1 \<lparr>Index = 0, SequenceNumber = 10\<rparr>
          (snd (getSeqNum 1 \<lparr>Index = 0, SequenceNumber = 5\<rparr> init_world))) = 10"
proof -
  let ?w = "snd (getSeqNum 1 \<lparr>Index = 0, SequenceNumber = 5\<rparr> init_world)"
  have stale: "cached ?w 1 (Index \<lparr>Index = 0, SequenceNumber = 3\<rparr>) = Some 5"
    by (simp add: getSeqNum_def cached_def init_world_def)
  have ahead: "cached ?w 1 (Index \<lparr>Index = 0, SequenceNumber = 10\<rparr>) = Some 5"
    by (simp add: getSeqNum_def cached_def init_world_def)
  show ?thesis
    using getSeqNum_existing_entry [OF stale] getSeqNum_existing_entry [OF ahead] by simp
qed

text \<open>
  C5. For a pair without a cache entry (the outer map is \<open>nil\<close>, the address has no inner
  map, or the inner map has no entry for the index), the call stores the remote sequence
  number and returns exactly it.
\<close>

theorem getSeqNum_first_use:
  assumes "cached w address (Index key) = None"
  shows "fst (getSeqNum address key w) = SequenceNumber key
       \<and> cached (snd (getSeqNum address key w)) address (Index key) = Some (SequenceNumber key)"
  using assms
  by (auto simp: getSeqNum_def cached_def Let_def split: option.splits)

theorem getSeqNum_first_use_witness:
  "cached init_world 1 0 = None
 \<and> fst (getSeqNum 1 \<lparr>Index = 0, SequenceNumber = 7\<rparr> init_world) = 7
 \<and> cached (snd (getSeqNum 1 \<lparr>Index = 0, SequenceNumber = 7\<rparr> init_world)) 1 0 = Some 7"
proof -
  have fresh: "cached init_world 1 (Index \<lparr>Index = 0, SequenceNumber = 7\<rparr>) = None"
    by (simp add: cached_def init_world_def)
  from getSeqNum_first_use [OF fresh] fresh show ?thesis by simp
qed

subsection \<open>Monotonicity\<close>

lemma word64_less_succ: "c \<noteq> (- 1 :: uint64) \<Longrightarrow> c < c + 1"
  by (metis inc_less_eq_triv_imp linorder_less_linear word_le_less_eq)

text \<open>
  One call returns more than the entry it found, unless that entry is \<open>2^64 - 1\<close>: either
  the entry plus one, or a remote sequence number above the entry.
\<close>

lemma getSeqNum_gt_cached:
  assumes "cached w address (Index key) = Some c" and "c \<noteq> - 1"
  shows "c < fst (getSeqNum address key w)"
  using assms word64_less_succ [of c]
  by (auto simp: getSeqNum_def cached_def Let_def split: option.splits)

lemma getSeqNum_calls_Cons:
  "fst (getSeqNum_calls address i (r # rs) w) =
     fst (getSeqNum address \<lparr>Index = i, SequenceNumber = r\<rparr> w) #
     fst (getSeqNum_calls address i rs (snd (getSeqNum address \<lparr>Index = i, SequenceNumber = r\<rparr> w)))"
  by (simp add: split_beta)

lemma getSeqNum_calls_increasing_from:
  "cached w address i = Some c \<Longrightarrow>
   - 1 \<notin> set (butlast (c # fst (getSeqNum_calls address i rs w))) \<Longrightarrow>
   sorted_wrt (<) (c # fst (getSeqNum_calls address i rs w))"
proof (induction rs arbitrary: w c)
  case Nil
  then show ?case by simp
next
  case (Cons r rs)
  let ?key = "\<lparr>Index = i, SequenceNumber = r\<rparr>"
  let ?v = "fst (getSeqNum address ?key w)"
  let ?w' = "snd (getSeqNum address ?key w)"
  let ?vs = "fst (getSeqNum_calls address i rs ?w')"
  have outs: "fst (getSeqNum_calls address i (r # rs) w) = ?v # ?vs"
    by (rule getSeqNum_calls_Cons)
  from Cons.prems(2) have "- 1 \<notin> set (butlast (c # ?v # ?vs))"
    unfolding outs .
  then have c: "c \<noteq> - 1" and rest: "- 1 \<notin> set (butlast (?v # ?vs))"
    by auto
  have "cached w address (Index ?key) = Some c" using Cons.prems(1) by simp
  from getSeqNum_gt_cached [OF this c] have lt: "c < ?v" .
  have "cached ?w' address i = Some ?v"
    using getSeqNum_cached [of address ?key w] by simp
  from Cons.IH [OF this rest] have "sorted_wrt (<) (?v # ?vs)" .
  with lt show ?case
    unfolding outs by (auto intro: less_trans)
qed

text \<open>
  C3, as amended. The values returned by successive calls for one pair, with arbitrary
  remote sequence numbers and from any state of the cache, are strictly increasing, hence
  non-decreasing, as long as no call but the last returns \<open>2^64 - 1\<close>, the value at which
  the increment of a \<open>uint64\<close> wraps. A call that finds its entry at least the remote
  number returns the entry plus one; any other call returns a remote number above the
  entry.
\<close>

theorem getSeqNum_calls_increasing:
  assumes "- 1 \<notin> set (butlast (fst (getSeqNum_calls address i rs w)))"
  shows "sorted_wrt (<) (fst (getSeqNum_calls address i rs w))
       \<and> sorted (fst (getSeqNum_calls address i rs w))"
proof (cases rs)
  case Nil
  then show ?thesis by simp
next
  case (Cons r rs')
  let ?key = "\<lparr>Index = i, SequenceNumber = r\<rparr>"
  let ?v = "fst (getSeqNum address ?key w)"
  let ?w' = "snd (getSeqNum address ?key w)"
  have outs: "fst (getSeqNum_calls address i rs w) = ?v # fst (getSeqNum_calls address i rs' ?w')"
    unfolding Cons by (rule getSeqNum_calls_Cons)
  have "cached ?w' address i = Some ?v"
    using getSeqNum_cached [of address ?key w] by simp
  from getSeqNum_calls_increasing_from [OF this] assms
  have "sorted_wrt (<) (fst (getSeqNum_calls address i rs w))"
    unfolding outs by simp
  then show ?thesis
    by (simp add: strict_sorted_imp_sorted)
qed

theorem getSeqNum_calls_increasing_witness:
  "fst (getSeqNum_calls 1 0 [3, 1, 10, 2] init_world) = [3, 4, 10, 11]
 \<and> sorted_wrt (<) (fst (getSeqNum_calls 1 0 [3, 1, 10, 2] init_world))"
proof -
  have outs: "fst (getSeqNum_calls 1 0 [3, 1, 10, 2] init_world) = [3, 4, 10, 11]"
    by (simp add: getSeqNum_def init_world_def Let_def)
  have below: "- 1 \<notin> set (butlast (fst (getSeqNum_calls 1 0 [3, 1, 10, 2] init_world)))"
    unfolding outs by simp
  from getSeqNum_calls_increasing [OF below] outs show ?thesis by simp
qed

text \<open>
  The claim as first stated fails when an entry reaches \<open>2^64 - 1\<close>: two calls that both
  report that remote sequence number return \<open>2^64 - 1\<close> and then \<open>0\<close>.
\<close>

theorem getSeqNum_wraps_counterexample:
  "fst (getSeqNum_calls 1 0 [- 1, - 1] init_world) = [- 1, 0]
 \<and> \<not> sorted (fst (getSeqNum_calls 1 0 [- 1, - 1] init_world))"
  by (simp add: getSeqNum_def init_world_def Let_def)

subsection \<open>Calls in sequence with one remote sequence number\<close>

text \<open>
  \<open>getSeqNum\<close> holds \<open>seqNumLock\<close> from its first statement to its return, so calls run one
  after the other; this is the list of values such a run returns.
\<close>

lemma getSeqNum_ahead:
  assumes "cached w address (Index key) = Some c" and "SequenceNumber key \<le> c"
  shows "fst (getSeqNum address key w) = c + 1"
  using assms
  by (auto simp: getSeqNum_def cached_def Let_def split: option.splits)

lemma unat_succ64:
  assumes "unat (c :: uint64) + 1 < 2 ^ 64"
  shows "c < c + 1" and "unat (c + 1) = Suc (unat c)"
proof -
  have "unat (- 1 :: uint64) = 2 ^ 64 - 1"
    by (simp add: unsigned_minus_1_eq_mask mask_eq_exp_minus_1)
  with assms have "c \<noteq> - 1"
    by auto
  then show lt: "c < c + 1" by (rule word64_less_succ)
  then have "1 + c \<noteq> 0"
    by (auto simp: add.commute)
  then have "unat (1 + c) = Suc (unat c)"
    by (rule unatSuc)
  then show "unat (c + 1) = Suc (unat c)"
    by (simp add: add.commute)
qed

lemma upt_Suc_shift: "[0..<Suc n] = 0 # map Suc [0..<n]"
  by (simp add: upt_conv_Cons map_Suc_upt del: upt_Suc)

lemma getSeqNum_calls_fixed_from:
  "cached w address i = Some c \<Longrightarrow> r \<le> c \<Longrightarrow> unat c + n < 2 ^ 64 \<Longrightarrow>
   fst (getSeqNum_calls address i (replicate n r) w) = map (\<lambda>j. c + 1 + of_nat j) [0..<n]"
proof (induction n arbitrary: w c)
  case 0
  then show ?case by simp
next
  case (Suc n)
  let ?key = "\<lparr>Index = i, SequenceNumber = r\<rparr>"
  let ?w' = "snd (getSeqNum address ?key w)"
  have v: "fst (getSeqNum address ?key w) = c + 1"
    using Suc.prems(1,2) by (intro getSeqNum_ahead) simp_all
  have c': "cached ?w' address i = Some (c + 1)"
    using getSeqNum_cached [of address ?key w] v by simp
  from Suc.prems(3) have "unat c + 1 < 2 ^ 64" by simp
  note s = unat_succ64 [OF this]
  from s(1) Suc.prems(2) have r: "r \<le> c + 1" by simp
  from s(2) Suc.prems(3) have bound: "unat (c + 1) + n < 2 ^ 64" by simp
  have "fst (getSeqNum_calls address i (replicate (Suc n) r) w) =
      (c + 1) # map (\<lambda>j. c + 1 + 1 + of_nat j) [0..<n]"
    unfolding replicate_Suc getSeqNum_calls_Cons v Suc.IH [OF c' r bound] ..
  also have "\<dots> = map (\<lambda>j. c + 1 + of_nat j) [0..<Suc n]"
    unfolding upt_Suc_shift by (simp add: o_def add.assoc add.commute)
  finally show ?case .
qed

text \<open>
  From a pair without an entry, \<open>n + 1\<close> calls that report the same remote sequence number
  \<open>r\<close> return \<open>r, r + 1, \<dots>, r + n\<close>, as long as \<open>r + n\<close> does not exceed \<open>2^64 - 1\<close>.
\<close>

lemma getSeqNum_calls_fixed_remote:
  assumes "cached w address i = None" and "unat r + n < 2 ^ 64"
  shows "fst (getSeqNum_calls address i (replicate (Suc n) r) w) = map (\<lambda>j. r + of_nat j) [0..<Suc n]"
proof -
  let ?key = "\<lparr>Index = i, SequenceNumber = r\<rparr>"
  let ?w' = "snd (getSeqNum address ?key w)"
  have v: "fst (getSeqNum address ?key w) = r"
    using assms(1) by (simp add: getSeqNum_def cached_def Let_def split: option.splits)
  with getSeqNum_cached [of address ?key w] have c': "cached ?w' address i = Some r"
    by simp
  have "fst (getSeqNum_calls address i (replicate (Suc n) r) w) =
      r # map (\<lambda>j. r + 1 + of_nat j) [0..<n]"
    unfolding replicate_Suc getSeqNum_calls_Cons v
      getSeqNum_calls_fixed_from [OF c' order_refl assms(2)] ..
  also have "\<dots> = map (\<lambda>j. r + of_nat j) [0..<Suc n]"
    unfolding upt_Suc_shift by (simp add: o_def add.assoc add.commute)
  finally show ?thesis .
qed

section \<open>Properties of the key rotator\<close>

lemma go_rem_nonneg: "0 \<le> a \<Longrightarrow> 0 < b \<Longrightarrow> go_rem a b = a mod b"
  by (cases "a = 0") (simp_all add: go_rem_def)

lemma cursor_in_boundsE:
  assumes "cursor_in_bounds a"
  obtains c where "nextKeyIndexIndex a = int c" and "c < length (KeyIndexes a)"
proof -
  from assms have "nextKeyIndexIndex a = int (nat (nextKeyIndexIndex a))"
    and "nat (nextKeyIndexIndex a) < length (KeyIndexes a)"
    unfolding cursor_in_bounds_def by linarith+
  then show thesis by (rule that)
qed

lemma KeyIndex_step:
  assumes c: "nextKeyIndexIndex a = int c" and cL: "c < length (KeyIndexes a)"
  shows "KeyIndex a =
           (Inr (KeyIndexes a ! c),
            a\<lparr>nextKeyIndexIndex := int (Suc c mod length (KeyIndexes a))\<rparr>)"
proof -
  have "go_rem (int c + 1) (int (length (KeyIndexes a))) = (int c + 1) mod int (length (KeyIndexes a))"
    using cL by (intro go_rem_nonneg) auto
  also have "\<dots> = int (Suc c mod length (KeyIndexes a))"
    by (simp add: zmod_int add.commute)
  finally show ?thesis
    using cL by (simp add: KeyIndex_def c)
qed

lemma KeyIndex_calls_run:
  "nextKeyIndexIndex a = int c \<Longrightarrow> c < length (KeyIndexes a) \<Longrightarrow>
   KeyIndex_calls n a =
     (Inr (map (\<lambda>j. KeyIndexes a ! ((c + j) mod length (KeyIndexes a))) [0..<n]),
      a\<lparr>nextKeyIndexIndex := int ((c + n) mod length (KeyIndexes a))\<rparr>)"
proof (induction n arbitrary: a c)
  case 0
  then show ?case by simp
next
  case (Suc n)
  let ?L = "length (KeyIndexes a)"
  let ?a' = "a\<lparr>nextKeyIndexIndex := int (Suc c mod ?L)\<rparr>"
  have step: "KeyIndex a = (Inr (KeyIndexes a ! c), ?a')"
    using Suc.prems by (rule KeyIndex_step)
  have "nextKeyIndexIndex ?a' = int (Suc c mod ?L)" by simp
  moreover have "Suc c mod ?L < length (KeyIndexes ?a')"
    using Suc.prems(2) by (cases "KeyIndexes a") simp_all
  ultimately have raw: "KeyIndex_calls n ?a' =
     (Inr (map (\<lambda>j. KeyIndexes ?a' ! ((Suc c mod ?L + j) mod length (KeyIndexes ?a'))) [0..<n]),
      ?a'\<lparr>nextKeyIndexIndex := int ((Suc c mod ?L + n) mod length (KeyIndexes ?a'))\<rparr>)"
    by (rule Suc.IH)
  have shift: "(Suc c mod ?L + j) mod ?L = (c + Suc j) mod ?L" for j
    by (simp add: mod_add_left_eq)
  have rest: "KeyIndex_calls n ?a' =
     (Inr (map (\<lambda>j. KeyIndexes a ! ((c + Suc j) mod ?L)) [0..<n]),
      a\<lparr>nextKeyIndexIndex := int ((c + Suc n) mod ?L)\<rparr>)"
    using raw by (simp add: mod_add_left_eq)
  have upt: "[0..<Suc n] = 0 # map Suc [0..<n]"
    by (simp add: upt_conv_Cons map_Suc_upt del: upt_Suc)
  have first: "c mod ?L = c" using Suc.prems(2) by simp
  have "KeyIndex_calls (Suc n) a =
      (Inr (KeyIndexes a ! c # map (\<lambda>j. KeyIndexes a ! ((c + Suc j) mod ?L)) [0..<n]),
       a\<lparr>nextKeyIndexIndex := int ((c + Suc n) mod ?L)\<rparr>)"
    by (simp add: step rest)
  then show ?case
    by (simp only: upt list.map map_map o_def first add_0_right)
qed

lemma rotate_as_map:
  "xs \<noteq> [] \<Longrightarrow> map (\<lambda>j. xs ! ((c + j) mod length xs)) [0..<length xs] = rotate c xs"
  by (rule nth_equalityI) (simp_all add: nth_rotate)

lemma map_rounds:
  assumes "\<And>j. f (j + L) = f j"
  shows "map f [0..<k * L] = concat (replicate k (map f [0..<L]))"
proof (induction k)
  case 0
  then show ?case by simp
next
  case (Suc k)
  have "[0..<Suc k * L] = [0..<L] @ map (\<lambda>j. j + L) [0..<k * L]"
    by (simp add: map_add_upt upt_add_eq_append [of 0 L "k * L", simplified] add.commute)
  then have "map f [0..<Suc k * L] = map f [0..<L] @ map f [0..<k * L]"
    by (simp add: o_def assms)
  with Suc.IH show ?case by simp
qed

lemma count_list_rotate1: "count_list (rotate1 ys) p = count_list ys p"
  by (cases ys) simp_all

lemma count_list_rotate: "count_list (rotate c ys) p = count_list ys p"
  by (induction c) (simp_all add: count_list_rotate1)

lemma count_list_rounds: "count_list (concat (replicate k ys)) p = k * count_list ys p"
  by (induction k) simp_all

lemma count_list_upt: "count_list [0..<L] p = (if p < L then 1 else 0)"
  by (induction L) auto

lemma positions_fair:
  "p < L \<Longrightarrow> count_list (concat (replicate k (rotate c [0..<L]))) p = k"
  by (simp add: count_list_rounds count_list_rotate count_list_upt)

lemma rounds_positions:
  "concat (replicate k (rotate c xs)) =
     map ((!) xs) (concat (replicate k (rotate c [0..<length xs])))"
proof -
  have "rotate c xs = map ((!) xs) (rotate c [0..<length xs])"
    by (simp add: map_nth flip: rotate_map)
  then show ?thesis
    by (simp add: map_concat)
qed

text \<open>
  C6. For an account whose cursor \<open>c\<close> is within its non-empty list of length \<open>L\<close>: one call
  of \<open>KeyIndex\<close> returns the index at the cursor and advances the cursor by one modulo \<open>L\<close>;
  \<open>k * L\<close> successive calls do not panic, visit the positions \<open>c, c + 1, \<dots>, L - 1, 0, \<dots>, c - 1\<close>
  in \<open>k\<close> rounds and return the index stored at each, so that every position is visited
  exactly \<open>k\<close> times, and leave the cursor where it was.
\<close>

theorem KeyIndex_round_robin:
  assumes "cursor_in_bounds a"
  shows "KeyIndex a =
           (Inr (KeyIndexes a ! nat (nextKeyIndexIndex a)),
            a\<lparr>nextKeyIndexIndex :=
                 (nextKeyIndexIndex a + 1) mod int (length (KeyIndexes a))\<rparr>)
       \<and> KeyIndex_calls (k * length (KeyIndexes a)) a =
           (Inr (map ((!) (KeyIndexes a))
                   (concat (replicate k
                      (rotate (nat (nextKeyIndexIndex a)) [0..<length (KeyIndexes a)])))), a)
       \<and> (\<forall>p < length (KeyIndexes a).
             count_list (concat (replicate k
               (rotate (nat (nextKeyIndexIndex a)) [0..<length (KeyIndexes a)]))) p = k)"
proof -
  let ?xs = "KeyIndexes a"
  let ?L = "length ?xs"
  from assms obtain c where c: "nextKeyIndexIndex a = int c" "c < ?L"
    by (rule cursor_in_boundsE)
  have ne: "?xs \<noteq> []" using c(2) by auto
  have "int (Suc c mod ?L) = (int c + 1) mod int ?L"
    by (simp add: zmod_int add.commute)
  with KeyIndex_step [OF c] have one: "KeyIndex a =
      (Inr (?xs ! c), a\<lparr>nextKeyIndexIndex := (int c + 1) mod int ?L\<rparr>)"
    by simp
  have same: "a\<lparr>nextKeyIndexIndex := int ((c + k * ?L) mod ?L)\<rparr> = a"
    using c by simp
  have "map (\<lambda>j. ?xs ! ((c + j) mod ?L)) [0..<k * ?L] =
      concat (replicate k (map (\<lambda>j. ?xs ! ((c + j) mod ?L)) [0..<?L]))"
    by (rule map_rounds) (simp add: add.assoc [symmetric])
  also have "\<dots> = concat (replicate k (rotate c ?xs))"
    by (simp only: rotate_as_map [OF ne])
  also have "\<dots> = map ((!) ?xs) (concat (replicate k (rotate c [0..<?L])))"
    by (rule rounds_positions)
  finally have many: "KeyIndex_calls (k * ?L) a =
      (Inr (map ((!) ?xs) (concat (replicate k (rotate c [0..<?L])))), a)"
    using KeyIndex_calls_run [OF c, of "k * ?L"] same by simp
  from one many show ?thesis
    by (simp add: positions_fair c(1))
qed

theorem KeyIndex_round_robin_witness:
  "cursor_in_bounds \<lparr>Address = 1, PrivateKeyInHex = ''k'', KeyIndexes = [10, 20, 30], nextKeyIndexIndex = 1\<rparr>
 \<and> KeyIndex_calls 6 \<lparr>Address = 1, PrivateKeyInHex = ''k'', KeyIndexes = [10, 20, 30], nextKeyIndexIndex = 1\<rparr> =
     (Inr [20, 30, 10, 20, 30, 10],
      \<lparr>Address = 1, PrivateKeyInHex = ''k'', KeyIndexes = [10, 20, 30], nextKeyIndexIndex = 1\<rparr>)"
proof -
  let ?a = "\<lparr>Address = 1, PrivateKeyInHex = ''k'', KeyIndexes = [10, 20, 30], nextKeyIndexIndex = 1\<rparr>"
  have inb: "cursor_in_bounds ?a"
    by (simp add: cursor_in_bounds_def)
  have len: "2 * length (KeyIndexes ?a) = 6"
    by simp
  have outs: "map ((!) (KeyIndexes ?a))
      (concat (replicate 2 (rotate (nat (nextKeyIndexIndex ?a)) [0..<length (KeyIndexes ?a)]))) =
      [20, 30, 10, 20, 30, 10]"
    by (simp add: eval_nat_numeral)
  note KeyIndex_round_robin [OF inb, of 2, THEN conjunct2, THEN conjunct1, unfolded len outs]
  with inb show ?thesis
    by (rule conjI)
qed

section \<open>Properties of the account registry\<close>

text \<open>
  C7. When an account is registered for the address, \<open>GetAccount\<close> returns the pointer to that
  account and changes nothing: the heap, and with it the account's credential, key-index
  list and cursor, and the registry are as before, whatever credential, key indexes and
  random draw the call is given.
\<close>

theorem GetAccount_existing:
  assumes "registered w address = Some p"
  shows "GetAccount address privateKeyInHex keyIndexes draw w = (Inr p, w)"
  using assms
  by (auto simp: GetAccount_def registered_def Let_def split: option.splits)

text \<open>
  C1, as amended. \<open>GetAccount\<close> has no error result. With an empty \<open>keyIndexes\<close> the call
  returns the account already registered for the address when there is one; otherwise it
  panics in \<open>rand.Intn(0)\<close>, the initialisation of the cursor, before an account is allocated or
  registered, so no account with an empty list reaches the rotator.
\<close>

theorem GetAccount_empty_keyIndexes:
  "GetAccount address privateKeyInHex [] draw w =
     (case registered w address of
        Some p \<Rightarrow> (Inr p, w)
      | None \<Rightarrow>
          (Inl InvalidArgumentToIntn,
           w\<lparr>accounts := Some (case accounts w of None \<Rightarrow> Map.empty | Some m \<Rightarrow> m)\<rparr>))"
  by (auto simp: GetAccount_def registered_def Intn_def Let_def split: option.splits)

text \<open>The claim as first stated fails: the first call for an address with no key index panics.\<close>

theorem GetAccount_empty_counterexample:
  "fst (GetAccount 1 ''key'' [] 0 init_world) = Inl InvalidArgumentToIntn
 \<and> heap (snd (GetAccount 1 ''key'' [] 0 init_world)) = []
 \<and> registered (snd (GetAccount 1 ''key'' [] 0 init_world)) 1 = None"
  by (simp add: GetAccount_def Intn_def init_world_def registered_def)

lemma GetAccount_new:
  assumes "keyIndexes \<noteq> []" and "registered w address = None"
  shows "GetAccount address privateKeyInHex keyIndexes draw w =
     (Inr (length (heap w)),
      w\<lparr>heap := heap w @
             [\<lparr>Address = address, PrivateKeyInHex = privateKeyInHex, KeyIndexes = keyIndexes,
               nextKeyIndexIndex = int (draw mod length keyIndexes)\<rparr>],
         accounts := Some ((case accounts w of None \<Rightarrow> Map.empty | Some m \<Rightarrow> m)
                        (address \<mapsto> length (heap w)))\<rparr>)"
  using assms
  by (auto simp: GetAccount_def registered_def Intn_def Let_def zmod_int split: option.splits)

lemma KeyIndex_KeyIndexes: "KeyIndexes (snd (KeyIndex a)) = KeyIndexes a"
  by (simp add: KeyIndex_def)

lemma KeyIndex_keeps_bounds:
  assumes "cursor_in_bounds a"
  shows "cursor_in_bounds (snd (KeyIndex a))"
proof -
  from assms obtain c where c: "nextKeyIndexIndex a = int c" "c < length (KeyIndexes a)"
    by (rule cursor_in_boundsE)
  then have "Suc c mod length (KeyIndexes a) < length (KeyIndexes a)"
    by (cases "KeyIndexes a") simp_all
  then show ?thesis
    unfolding KeyIndex_step [OF c] by (simp add: cursor_in_bounds_def)
qed

lemma KeyIndex_no_panic:
  assumes "cursor_in_bounds a"
  shows "fst (KeyIndex a) = Inr (KeyIndexes a ! nat (nextKeyIndexIndex a))"
proof -
  from assms obtain c where c: "nextKeyIndexIndex a = int c" "c < length (KeyIndexes a)"
    by (rule cursor_in_boundsE)
  show ?thesis
    unfolding KeyIndex_step [OF c] by (simp add: c(1))
qed

lemma GetProposalKey_heap: "heap (snd (GetProposalKey a remote w)) = heap w"
  by (auto simp: GetProposalKey_def getSeqNum_def Let_def split: prod.splits sum.splits option.splits)

lemma step_account:
  assumes "p < length (heap w)"
  shows "p < length (heap (step x w))
       \<and> KeyIndexes (heap (step x w) ! p) = KeyIndexes (heap w ! p)
       \<and> (cursor_in_bounds (heap w ! p) \<longrightarrow> cursor_in_bounds (heap (step x w) ! p))"
proof (cases x)
  case (OpGetAccount address pk keyIndexes draw)
  have "heap (snd (GetAccount address pk keyIndexes draw w)) = heap w
      \<or> (\<exists>a. heap (snd (GetAccount address pk keyIndexes draw w)) = heap w @ [a])"
    by (auto simp: GetAccount_def Let_def split: option.splits sum.splits)
  with assms show ?thesis
    unfolding OpGetAccount by (auto simp: nth_append)
next
  case (OpKeyIndex q)
  show ?thesis
  proof (cases "q = p")
    case True
    with assms have "heap (step x w) = (heap w)[p := snd (KeyIndex (heap w ! p))]"
      unfolding OpKeyIndex by (simp add: KeyIndex_at_def split_beta)
    with assms show ?thesis
      by (simp add: KeyIndex_KeyIndexes KeyIndex_keeps_bounds)
  next
    case False
    with assms show ?thesis
      unfolding OpKeyIndex by (simp add: KeyIndex_at_def split_beta)
  qed
next
  case (OpGetProposalKey q remote)
  with assms show ?thesis
    by (simp add: GetProposalKey_at_def GetProposalKey_heap)
next
  case (OpGetSeqNum address key)
  with assms show ?thesis
    by (simp add: getSeqNum_def Let_def)
qed

lemma exec_account:
  "p < length (heap w) \<Longrightarrow>
   p < length (heap (exec ops w))
   \<and> KeyIndexes (heap (exec ops w) ! p) = KeyIndexes (heap w ! p)
   \<and> (cursor_in_bounds (heap w ! p) \<longrightarrow> cursor_in_bounds (heap (exec ops w) ! p))"
proof (induction ops arbitrary: w)
  case Nil
  then show ?case by simp
next
  case (Cons x ops)
  from step_account [OF Cons.prems, of x] Cons.IH [of "step x w"]
  show ?case by simp
qed

text \<open>
  C8. An account created by \<open>GetAccount\<close> with a non-empty \<open>keyIndexes\<close> is registered with
  that list and with the cursor that \<open>rand.Intn(len(keyIndexes))\<close> returned, the draw of the
  generator reduced modulo the length of the list, which is within the list; and after
  any sequence of operations of the package
  (calls of \<open>KeyIndex\<close> on it or on other accounts, \<open>GetAccount\<close>, \<open>GetProposalKey\<close>,
  \<open>getSeqNum\<close>, panicking or not) it still has the same list and a cursor within it, so the
  next \<open>KeyIndex\<close> on it does not panic.
\<close>

theorem GetAccount_cursor_in_bounds:
  assumes "keyIndexes \<noteq> []" and "registered w address = None"
  shows "\<exists>p w'. GetAccount address privateKeyInHex keyIndexes draw w = (Inr p, w')
           \<and> registered w' address = Some p
           \<and> heap w' ! p =
               \<lparr>Address = address, PrivateKeyInHex = privateKeyInHex, KeyIndexes = keyIndexes,
                 nextKeyIndexIndex = int (draw mod length keyIndexes)\<rparr>
           \<and> Intn draw (int (length keyIndexes)) = Inr (nextKeyIndexIndex (heap w' ! p))
           \<and> KeyIndexes (heap w' ! p) = keyIndexes
           \<and> cursor_in_bounds (heap w' ! p)
           \<and> (\<forall>ops. KeyIndexes (heap (exec ops w') ! p) = keyIndexes
                  \<and> cursor_in_bounds (heap (exec ops w') ! p)
                  \<and> (\<exists>i. fst (KeyIndex_at p (exec ops w')) = Inr i))"
proof -
  let ?p = "length (heap w)"
  let ?a = "\<lparr>Address = address, PrivateKeyInHex = privateKeyInHex, KeyIndexes = keyIndexes,
             nextKeyIndexIndex = int (draw mod length keyIndexes)\<rparr>"
  let ?w' = "w\<lparr>heap := heap w @ [?a],
               accounts := Some ((case accounts w of None \<Rightarrow> Map.empty | Some m \<Rightarrow> m)
                              (address \<mapsto> ?p))\<rparr>"
  have new: "GetAccount address privateKeyInHex keyIndexes draw w = (Inr ?p, ?w')"
    using assms by (rule GetAccount_new)
  have reg: "registered ?w' address = Some ?p"
    by (simp add: registered_def)
  have obj: "heap ?w' ! ?p = ?a" and len: "?p < length (heap ?w')"
    by simp_all
  have inb: "cursor_in_bounds ?a"
    using assms(1) by (simp add: cursor_in_bounds_def)
  have later: "KeyIndexes (heap (exec ops ?w') ! ?p) = keyIndexes
      \<and> cursor_in_bounds (heap (exec ops ?w') ! ?p)
      \<and> (\<exists>i. fst (KeyIndex_at ?p (exec ops ?w')) = Inr i)" for ops
  proof -
    from exec_account [OF len, of ops] inb
    have l: "?p < length (heap (exec ops ?w'))"
      and k: "KeyIndexes (heap (exec ops ?w') ! ?p) = keyIndexes"
      and b: "cursor_in_bounds (heap (exec ops ?w') ! ?p)"
      unfolding obj by simp_all
    from l KeyIndex_no_panic [OF b]
    have "\<exists>i. fst (KeyIndex_at ?p (exec ops ?w')) = Inr i"
      by (simp add: KeyIndex_at_def split_beta)
    with k b show ?thesis by simp
  qed
  have drawn: "Intn draw (int (length keyIndexes)) = Inr (nextKeyIndexIndex ?a)"
    using assms(1) by (simp add: Intn_def zmod_int)
  from new reg obj inb drawn later show ?thesis
    by (intro exI [of _ ?p] exI [of _ ?w']) simp
qed

theorem GetAccount_existing_witness:
  "registered (snd (KeyIndex_at 0 (snd (GetAccount 1 ''k'' [10, 20, 30] 7 init_world)))) 1 = Some 0
 \<and> nextKeyIndexIndex (heap (snd (KeyIndex_at 0 (snd (GetAccount 1 ''k'' [10, 20, 30] 7 init_world)))) ! 0) = 2
 \<and> GetAccount 1 ''other'' [99] 5 (snd (KeyIndex_at 0 (snd (GetAccount 1 ''k'' [10, 20, 30] 7 init_world)))) =
     (Inr 0, snd (KeyIndex_at 0 (snd (GetAccount 1 ''k'' [10, 20, 30] 7 init_world))))"
proof -
  let ?w = "snd (KeyIndex_at 0 (snd (GetAccount 1 ''k'' [10, 20, 30] 7 init_world)))"
  have reg: "registered ?w 1 = Some 0"
    by (simp add: registered_def KeyIndex_at_def KeyIndex_def go_rem_def GetAccount_def Intn_def
        init_world_def)
  have cur: "nextKeyIndexIndex (heap ?w ! 0) = 2"
    by (simp add: KeyIndex_at_def KeyIndex_def go_rem_def GetAccount_def Intn_def init_world_def)
  from GetAccount_existing [OF reg, of "''other''" "[99]" 5] reg cur show ?thesis
    by simp
qed

theorem GetAccount_cursor_in_bounds_witness:
  "fst (GetAccount 1 ''k'' [10, 20, 30] 7 init_world) = Inr 0
 \<and> nextKeyIndexIndex (heap (snd (GetAccount 1 ''k'' [10, 20, 30] 7 init_world)) ! 0) = 1
 \<and> nextKeyIndexIndex (heap (snd (GetAccount 1 ''k'' [10, 20, 30] 8 init_world)) ! 0) = 2
 \<and> cursor_in_bounds
      (heap (exec [OpKeyIndex 0, OpKeyIndex 0, OpGetAccount 2 ''k2'' [] 4, OpKeyIndex 0]
               (snd (GetAccount 1 ''k'' [10, 20, 30] 7 init_world))) ! 0)"
proof -
  have ne: "[10, 20, 30] \<noteq> ([] :: int list)"
    by simp
  have fresh: "registered init_world 1 = None"
    by (simp add: registered_def init_world_def)
  from GetAccount_cursor_in_bounds [OF ne fresh, of "''k''" 7]
  obtain p w' where new: "GetAccount 1 ''k'' [10, 20, 30] 7 init_world = (Inr p, w')"
    and cur: "nextKeyIndexIndex (heap w' ! p) = int (7 mod length [10, 20, 30 :: int])"
    and later: "\<And>ops. cursor_in_bounds (heap (exec ops w') ! p)"
    by (metis Account.select_convs(4))
  from GetAccount_cursor_in_bounds [OF ne fresh, of "''k''" 8]
  obtain q v' where new8: "GetAccount 1 ''k'' [10, 20, 30] 8 init_world = (Inr q, v')"
    and cur8: "nextKeyIndexIndex (heap v' ! q) = int (8 mod length [10, 20, 30 :: int])"
    by (metis Account.select_convs(4))
  have "fst (GetAccount 1 ''k'' [10, 20, 30] 7 init_world) = Inr 0"
    and "fst (GetAccount 1 ''k'' [10, 20, 30] 8 init_world) = Inr 0"
    by (simp_all add: GetAccount_def Intn_def init_world_def)
  with new new8 have "p = 0" and "q = 0" by simp_all
  with new new8 cur cur8 later
    [of "[OpKeyIndex 0, OpKeyIndex 0, OpGetAccount 2 ''k2'' [] 4, OpKeyIndex 0]"]
  show ?thesis by simp
qed

section \<open>Properties of the proposal-key assembly\<close>

text \<open>
  C2. A remote query that fails returns a \<open>nil\<close> account with its error, and the key is read
  from \<open>account.Keys\<close> before the error is looked at: the call panics instead of returning the
  error. The sequence cache is as before.
\<close>

theorem GetProposalKey_remote_failure_panics:
  "GetProposalKey
     \<lparr>Address = 1, PrivateKeyInHex = ''k'', KeyIndexes = [0], nextKeyIndexIndex = 0\<rparr>
     (None, Some (RemoteError ''unavailable'')) init_world =
   (Inl NilDereference, init_world)"
  by (simp add: GetProposalKey_def KeyIndex_def)

lemma GetProposalKey_nil_account_panics:
  "\<exists>p. fst (GetProposalKey a (None, err) w) = Inl p"
  by (auto simp: GetProposalKey_def split: prod.splits sum.splits)

lemma GetProposalKey_failure_keeps_world:
  "snd (GetProposalKey a (account, Some e) w) = w"
  by (auto simp: GetProposalKey_def Let_def split: prod.splits sum.splits option.splits)

lemma GetProposalKey_at_heap: "heap (snd (GetProposalKey_at p remote w)) = heap w"
  by (simp add: GetProposalKey_at_def GetProposalKey_heap)

text \<open>
  C10, as amended. \<open>GetProposalKey\<close> uses the key index the rotator returns, the one at the
  cursor, as a position in the keys of the fetched account. The call panics with an index
  out of range exactly when that index is negative or at least the number of keys; when it
  is a valid position the call does not panic and, without a remote error, returns the key
  at that position with the allocated sequence number, whatever the other configured key
  indexes are.
\<close>

theorem GetProposalKey_index_out_of_range:
  assumes "cursor_in_bounds a"
  shows "(KeyIndexes a ! nat (nextKeyIndexIndex a) < 0
          \<or> int (length (Keys acc)) \<le> KeyIndexes a ! nat (nextKeyIndexIndex a)
          \<longrightarrow> GetProposalKey a (Some acc, err) w = (Inl IndexOutOfRange, w))
       \<and> (0 \<le> KeyIndexes a ! nat (nextKeyIndexIndex a)
          \<and> KeyIndexes a ! nat (nextKeyIndexIndex a) < int (length (Keys acc))
          \<longrightarrow> (\<forall>p. fst (GetProposalKey a (Some acc, err) w) \<noteq> Inl p)
            \<and> fst (GetProposalKey a (Some acc, None) w) =
                Inr (Inr ((Keys acc ! nat (KeyIndexes a ! nat (nextKeyIndexIndex a)))
                  \<lparr>SequenceNumber :=
                     fst (getSeqNum (Address a)
                            (Keys acc ! nat (KeyIndexes a ! nat (nextKeyIndexIndex a))) w)\<rparr>)))"
proof -
  from assms obtain c where c: "nextKeyIndexIndex a = int c" "c < length (KeyIndexes a)"
    by (rule cursor_in_boundsE)
  show ?thesis
    by (auto simp: GetProposalKey_def KeyIndex_step [OF c] c(1) Let_def split_beta
        split: option.splits)
qed

theorem GetProposalKey_index_out_of_range_witness:
  "GetProposalKey
      \<lparr>Address = 1, PrivateKeyInHex = ''k'', KeyIndexes = [0, 5], nextKeyIndexIndex = 1\<rparr>
      (Some \<lparr>Keys = [\<lparr>Index = 0, SequenceNumber = 7\<rparr>]\<rparr>, None) init_world =
    (Inl IndexOutOfRange, init_world)
 \<and> fst (GetProposalKey
      \<lparr>Address = 1, PrivateKeyInHex = ''k'', KeyIndexes = [5, 0], nextKeyIndexIndex = 1\<rparr>
      (Some \<lparr>Keys = [\<lparr>Index = 0, SequenceNumber = 7\<rparr>]\<rparr>, None) init_world) =
    Inr (Inr \<lparr>Index = 0, SequenceNumber = 7\<rparr>)"
proof -
  let ?a = "\<lparr>Address = 1, PrivateKeyInHex = ''k'', KeyIndexes = [0, 5], nextKeyIndexIndex = 1\<rparr>"
  let ?b = "\<lparr>Address = 1, PrivateKeyInHex = ''k'', KeyIndexes = [5, 0], nextKeyIndexIndex = 1\<rparr>"
  let ?acc = "\<lparr>Keys = [\<lparr>Index = 0, SequenceNumber = 7\<rparr>]\<rparr>"
  have a: "cursor_in_bounds ?a" and b: "cursor_in_bounds ?b"
    by (simp_all add: cursor_in_bounds_def)
  have seq: "fst (getSeqNum 1 \<lparr>Index = 0, SequenceNumber = 7\<rparr> init_world) = 7"
    by (simp add: getSeqNum_def init_world_def)
  from GetProposalKey_index_out_of_range [OF a, of ?acc None init_world]
    GetProposalKey_index_out_of_range [OF b, of ?acc None init_world] seq
  show ?thesis by simp
qed

text \<open>
  The claim as first stated fails: a configured key index that is not at the cursor may be
  out of range without a panic.
\<close>

theorem GetProposalKey_other_index_counterexample:
  "5 \<in> set (KeyIndexes \<lparr>Address = 1, PrivateKeyInHex = ''k'', KeyIndexes = [0, 5], nextKeyIndexIndex = 0\<rparr>)
 \<and> int (length (Keys \<lparr>Keys = [\<lparr>Index = 0, SequenceNumber = 7\<rparr>]\<rparr>)) \<le> 5
 \<and> fst (GetProposalKey
      \<lparr>Address = 1, PrivateKeyInHex = ''k'', KeyIndexes = [0, 5], nextKeyIndexIndex = 0\<rparr>
      (Some \<lparr>Keys = [\<lparr>Index = 0, SequenceNumber = 7\<rparr>]\<rparr>, None) init_world) =
    Inr (Inr \<lparr>Index = 0, SequenceNumber = 7\<rparr>)"
  by (simp add: GetProposalKey_def KeyIndex_def go_rem_def getSeqNum_def init_world_def)

end
